theory Spec2Isabelle
  imports Complex_Main "HOL-Library.Product_Lexorder" "HOL-Library.Multiset"
begin

section \<open>Colour table\<close>

text \<open>
  The palette of \<^verbatim>\<open>extract_equipment_simple.py\<close>: a list of (name, hex code) pairs.
  Index 0 is the anchor colour (Black).
\<close>

definition COLOR_SEQUENCE :: "(string \<times> string) list" where
  "COLOR_SEQUENCE =
     [(''Black'', ''333333''),
      (''Red'', ''FFB3B3''),
      (''Blue'', ''B3D9FF''),
      (''Orange'', ''FFD9B3''),
      (''Pink'', ''FFB3E6''),
      (''Purple'', ''D9B3FF''),
      (''Yellow'', ''FFFF99''),
      (''Light Grey'', ''E6E6E6'')]"

definition MVS_COLOR :: string where
  "MVS_COLOR = ''333333''"

text \<open>
  \<^verbatim>\<open>get_dsg_color_by_position(page_num, row_num, col_num, total_cols)\<close>. The arguments are
  Python integers; \<^verbatim>\<open>%\<close> with a positive modulus is the mathematical remainder, as
  \<open>mod\<close> on \<open>int\<close> is, so the subscript is always within the table.
\<close>

definition get_dsg_color_by_position :: "int \<Rightarrow> int \<Rightarrow> int \<Rightarrow> int \<Rightarrow> string" where
  "get_dsg_color_by_position page_num row_num col_num total_cols =
     (if page_num = 0 \<and> row_num = 0 then
        (if col_num = 0 then snd (COLOR_SEQUENCE ! 0)
         else (let color_index = col_num mod int (length COLOR_SEQUENCE)
               in snd (COLOR_SEQUENCE ! nat color_index)))
      else if page_num = 1 \<and> row_num = 0 \<and> col_num = total_cols - 1 then
        snd (COLOR_SEQUENCE ! 0)
      else (let color_index = (col_num + 1) mod int (length COLOR_SEQUENCE)
            in snd (COLOR_SEQUENCE ! nat color_index)))"

text \<open>
  The specification speaks of palette indices where the code returns hex codes. The
  palette index of a hex code is the position of the first table entry carrying it.
\<close>

fun index_of_hex :: "(string \<times> string) list \<Rightarrow> string \<Rightarrow> nat option" where
  "index_of_hex [] h = None"
| "index_of_hex ((name, hex_code) # rest) h =
     (if hex_code = h then Some 0 else map_option Suc (index_of_hex rest h))"

definition palette_index :: "string \<Rightarrow> nat option" where
  "palette_index h = index_of_hex COLOR_SEQUENCE h"


section \<open>The external PDF extractor\<close>

text \<open>
  A word as \<^verbatim>\<open>page.extract_words\<close> yields it (the keys \<^verbatim>\<open>'text'\<close>, \<^verbatim>\<open>'x0'\<close>,
  \<^verbatim>\<open>'top'\<close>). Coordinates are Python floats; they are modelled as real numbers, and
  text as strings of 8-bit characters (ASCII).
\<close>

record word =
  word_text :: string
  word_x0 :: real
  word_top :: real

text \<open>
  Every call into the extractor may raise: opening the file, \<^verbatim>\<open>extract_text\<close> and
  \<^verbatim>\<open>extract_words\<close> of each page. A raise is the left injection.
\<close>

datatype exn = ExtractorError | IndexError

record pdf_page =
  extract_text :: "exn + string"
  extract_words :: "exn + word list"

type_synonym pdf = "exn + pdf_page list"

section \<open>Equipment items\<close>

text \<open>
  The dictionaries built by the extractor. \<^verbatim>\<open>Color\<close> and \<^verbatim>\<open>ColorName\<close> are absent
  until the row of the item is stamped (\<open>None\<close>); the two connection fields are written
  as empty strings when extraction finishes.
\<close>

record item =
  Equipment :: string
  Type :: string
  Properties :: string
  x_position :: real
  y_position :: real
  page :: nat
  Color :: "string option"
  ColorName :: "string option"
  Alternate_From :: string
  Primary_From :: string

section \<open>Strings and the equipment pattern\<close>

definition upper_chars :: string where
  "upper_chars = ''ABCDEFGHIJKLMNOPQRSTUVWXYZ''"

definition lower_chars :: string where
  "lower_chars = ''abcdefghijklmnopqrstuvwxyz''"

definition digit_chars :: string where
  "digit_chars = ''0123456789''"

definition quote :: char where
  "quote = CHR 0x27"

definition is_upper :: "char \<Rightarrow> bool" where
  "is_upper c = (c \<in> set upper_chars)"

definition is_digit :: "char \<Rightarrow> bool" where
  "is_digit c = (c \<in> set digit_chars)"

definition is_upper_or_digit :: "char \<Rightarrow> bool" where
  "is_upper_or_digit c = (is_upper c \<or> is_digit c)"

text \<open>
  The regular expression \<^verbatim>\<open>'([A-Z]{3}[A-Z0-9]{2}\d{3})'\<close> (the quote characters are part
  of it) tried at the start of a string; the result is group 1.
\<close>

definition match_equipment_at :: "string \<Rightarrow> string option" where
  "match_equipment_at s =
     (let name = take 8 (drop 1 s)
      in if 10 \<le> length s \<and> s ! 0 = quote
            \<and> list_all is_upper (take 3 name)
            \<and> list_all is_upper_or_digit (take 2 (drop 3 name))
            \<and> list_all is_digit (drop 5 name)
            \<and> s ! 9 = quote
         then Some name else None)"

text \<open>\<^verbatim>\<open>re.search(equipment_pattern, text)\<close>: the leftmost match.\<close>

fun equipment_search :: "string \<Rightarrow> string option" where
  "equipment_search [] = None"
| "equipment_search (c # cs) =
     (case match_equipment_at (c # cs) of
        Some name \<Rightarrow> Some name
      | None \<Rightarrow> equipment_search cs)"

text \<open>
  The first position at which a literal string occurs: \<^verbatim>\<open>pattern in s\<close> and
  \<^verbatim>\<open>re.search(re.escape(name), s)\<close>.
\<close>

fun find_sub :: "string \<Rightarrow> string \<Rightarrow> nat option" where
  "find_sub pat [] = (if pat = [] then Some 0 else None)"
| "find_sub pat (c # cs) =
     (if take (length pat) (c # cs) = pat then Some 0
      else map_option Suc (find_sub pat cs))"

definition contains :: "string \<Rightarrow> string \<Rightarrow> bool" where
  "contains pat s = (find_sub pat s \<noteq> None)"

definition upper_char :: "char \<Rightarrow> char" where
  "upper_char c = (case map_of (zip lower_chars upper_chars) c of Some u \<Rightarrow> u | None \<Rightarrow> c)"

definition upper :: "string \<Rightarrow> string" where
  "upper s = map upper_char s"

fun join_space :: "string list \<Rightarrow> string" where
  "join_space [] = []"
| "join_space [x] = x"
| "join_space (x # y # ys) = x @ '' '' @ join_space (y # ys)"

section \<open>Property extraction: the text that is searched\<close>

definition value_unit_indicators :: "string list" where
  "value_unit_indicators = [''KVA'', ''KV'', ''A'', ''AMP'']"

definition lacks_indicators :: "string \<Rightarrow> bool" where
  "lacks_indicators context_text =
     (\<not> list_ex (\<lambda>pattern. contains pattern (upper context_text)) value_unit_indicators)"

text \<open>
  The first lines of \<^verbatim>\<open>extract_properties_enhanced\<close>, which choose
  \<^verbatim>\<open>search_text\<close>.
\<close>

definition choose_search_text :: "string \<Rightarrow> string \<Rightarrow> string \<Rightarrow> string" where
  "choose_search_text equipment_name context_text all_page_text =
     (if lacks_indicators context_text then
        (case find_sub equipment_name all_page_text of
           Some match_start \<Rightarrow>
             (let match_end = match_start + length equipment_name;
                  start = nat (max 0 (int match_start - 300));
                  end_pos = min (length all_page_text) (match_end + 300)
              in drop start (take end_pos all_page_text))
         | None \<Rightarrow> context_text)
      else context_text)"

text \<open>
  The rest of the function reads ratings and voltages out of the chosen text with
  regular expressions and joins them; it is the parameter \<open>summarise\<close> here.
\<close>

definition extract_properties_enhanced ::
    "(string \<Rightarrow> string) \<Rightarrow> string \<Rightarrow> string \<Rightarrow> string \<Rightarrow> string" where
  "extract_properties_enhanced summarise equipment_name context_text all_page_text =
     summarise (choose_search_text equipment_name context_text all_page_text)"

section \<open>Scanning the words of a page\<close>

text \<open>The slice \<^verbatim>\<open>words[max(0, i - 10):min(len(words), i + 40)]\<close>.\<close>

definition context_words :: "word list \<Rightarrow> nat \<Rightarrow> word list" where
  "context_words words i =
     (let context_start = nat (max 0 (int i - 10));
          context_end = min (length words) (i + 40)
      in drop context_start (take context_end words))"

definition context_text_of :: "word list \<Rightarrow> nat \<Rightarrow> string" where
  "context_text_of words i = join_space (map word_text (context_words words i))"

text \<open>
  One iteration of the loop over \<^verbatim>\<open>enumerate(words)\<close>; the state is
  \<^verbatim>\<open>seen_equipment\<close> and \<^verbatim>\<open>page_equipment\<close>.
\<close>

fun scan_word ::
    "(string \<Rightarrow> string) \<Rightarrow> nat \<Rightarrow> string \<Rightarrow> word list \<Rightarrow> string set \<times> item list
       \<Rightarrow> nat \<times> word \<Rightarrow> string set \<times> item list" where
  "scan_word summarise page_num full_page_text words (seen_equipment, page_equipment) (i, w) =
     (case equipment_search (word_text w) of
        None \<Rightarrow> (seen_equipment, page_equipment)
      | Some equipment_name \<Rightarrow>
          (let equipment_type = take 3 equipment_name
           in if equipment_type \<notin> set [''MVS'', ''DSG''] then (seen_equipment, page_equipment)
              else if equipment_name \<in> seen_equipment then (seen_equipment, page_equipment)
              else (insert equipment_name seen_equipment,
                    page_equipment @
                      [\<lparr>Equipment = equipment_name,
                        Type = equipment_type,
                        Properties = extract_properties_enhanced summarise equipment_name
                                       (context_text_of words i) full_page_text,
                        x_position = word_x0 w,
                        y_position = word_top w,
                        page = page_num,
                        Color = None,
                        ColorName = None,
                        Alternate_From = [],
                        Primary_From = []\<rparr>])))"

definition scan_words ::
    "(string \<Rightarrow> string) \<Rightarrow> nat \<Rightarrow> string \<Rightarrow> word list \<Rightarrow> string set
       \<Rightarrow> string set \<times> item list" where
  "scan_words summarise page_num full_page_text words seen_equipment =
     foldl (scan_word summarise page_num full_page_text words) (seen_equipment, [])
       (enumerate 0 words)"

section \<open>Double-precision subtraction\<close>

text \<open>
  Python floats are IEEE 754 binary64 numbers. A coordinate is the real number a double
  stands for, and \<^verbatim>\<open>a - b\<close> is the exact difference rounded to the nearest double, ties
  to the even significand. \<open>binade x\<close> is the exponent \<open>k\<close> with \<open>2^k \<le> x < 2^(k + 1)\<close>
  for a positive \<open>x\<close>.
\<close>

function binade_up :: "real \<Rightarrow> int" where
  "binade_up x = (if x < 2 then 0 else 1 + binade_up (x / 2))"
  by pat_completeness auto
termination
proof (relation "measure (\<lambda>x. nat \<lfloor>x\<rfloor>)")
  show "wf (measure (\<lambda>x. nat \<lfloor>x\<rfloor>))" by simp
next
  fix x :: real
  assume "\<not> x < 2"
  then have "x / 2 \<le> x - 1" by simp
  then have "\<lfloor>x / 2\<rfloor> \<le> \<lfloor>x - 1\<rfloor>" by (rule floor_mono)
  moreover from \<open>\<not> x < 2\<close> have "2 \<le> \<lfloor>x\<rfloor>" by (simp add: le_floor_iff)
  ultimately show "(x / 2, x) \<in> measure (\<lambda>x. nat \<lfloor>x\<rfloor>)"
    by simp
qed

function binade_down :: "real \<Rightarrow> int" where
  "binade_down x = (if x \<le> 0 \<or> 1 \<le> x then 0 else binade_down (2 * x) - 1)"
  by pat_completeness auto
termination
proof (relation "measure (\<lambda>x. nat \<lceil>1 / x\<rceil>)")
  show "wf (measure (\<lambda>x. nat \<lceil>1 / x\<rceil>))" by simp
next
  fix x :: real
  assume "\<not> (x \<le> 0 \<or> 1 \<le> x)"
  then have x: "0 < x" "x < 1" by simp_all
  then have big: "1 < 1 / x" by simp
  then have c: "2 \<le> \<lceil>1 / x\<rceil>"
    by (simp add: le_ceiling_iff)
  have "1 / (2 * x) = (1 / x) / 2" by simp
  also have "\<dots> \<le> real_of_int \<lceil>1 / x\<rceil> / 2"
    by (simp add: divide_right_mono)
  also from c have "\<dots> \<le> real_of_int (\<lceil>1 / x\<rceil> - 1)"
    by simp
  finally have "\<lceil>1 / (2 * x)\<rceil> \<le> \<lceil>1 / x\<rceil> - 1"
    by (rule ceiling_le)
  with c x show "(2 * x, x) \<in> measure (\<lambda>x. nat \<lceil>1 / x\<rceil>)"
    by simp
qed

declare binade_up.simps [simp del] binade_down.simps [simp del]

definition binade :: "real \<Rightarrow> int" where
  "binade x = (if 1 \<le> x then binade_up x else binade_down x)"

definition round_half_even :: "real \<Rightarrow> int" where
  "round_half_even x =
     (let f = \<lfloor>x\<rfloor>; r = x - of_int f
      in if r < 1 / 2 then f
         else if 1 / 2 < r then f + 1
         else if even f then f else f + 1)"

text \<open>
  Rounding to 53 significant bits; the unit in the last place is \<open>2^q\<close>, never below the
  subnormal spacing \<open>2^(-1074)\<close>. A result of magnitude \<open>2^1024\<close> or more stands for an
  infinity, which compares with the threshold as that magnitude does.
\<close>

definition round_double :: "real \<Rightarrow> real" where
  "round_double x =
     (if x = 0 then 0
      else (let q = max (- 1074) (binade \<bar>x\<bar> - 52);
                m = round_half_even (\<bar>x\<bar> / 2 powi q)
            in sgn x * of_int m * 2 powi q))"

definition float_sub :: "real \<Rightarrow> real \<Rightarrow> real" where
  "float_sub a b = round_double (a - b)"

section \<open>Position clusterer\<close>

definition y_threshold :: real where
  "y_threshold = 50"

text \<open>
  The loop over the sorted \<^verbatim>\<open>page_equipment\<close>; the state is \<^verbatim>\<open>rows\<close>,
  \<^verbatim>\<open>current_row\<close> and \<^verbatim>\<open>last_y\<close>. The test is
  \<^verbatim>\<open>abs(eq['y_position'] - last_y) < y_threshold\<close>, on the rounded difference.
\<close>

fun group_loop ::
    "item list \<Rightarrow> item list list \<Rightarrow> item list \<Rightarrow> real option \<Rightarrow> item list list \<times> item list" where
  "group_loop [] rows current_row last_y = (rows, current_row)"
| "group_loop (eq # rest) rows current_row last_y =
     (if (case last_y of None \<Rightarrow> True
          | Some ly \<Rightarrow> \<bar>float_sub (y_position eq) ly\<bar> < y_threshold)
      then group_loop rest rows (current_row @ [eq]) (Some (y_position eq))
      else group_loop rest (if current_row \<noteq> [] then rows @ [current_row] else rows) [eq]
             (Some (y_position eq)))"

definition group_rows :: "item list \<Rightarrow> item list list" where
  "group_rows page_equipment =
     (case group_loop page_equipment [] [] None of (rows, current_row) \<Rightarrow>
        if current_row \<noteq> [] then rows @ [current_row] else rows)"

section \<open>Stamping colours on rows\<close>

definition color_name_of :: "string \<Rightarrow> string" where
  "color_name_of color_hex =
     (case find (\<lambda>(name, hex_code). hex_code = color_hex) COLOR_SEQUENCE of
        Some (name, hex_code) \<Rightarrow> name
      | None \<Rightarrow> ''Unknown'')"

fun stamp_dsg :: "nat \<Rightarrow> nat \<Rightarrow> nat \<Rightarrow> nat \<times> item \<Rightarrow> item" where
  "stamp_dsg page_num row_idx total_cols (col_idx, eq) =
     (let color_hex = get_dsg_color_by_position (int page_num) (int row_idx - 1)
                        (int col_idx) (int total_cols)
      in eq\<lparr>Color := Some color_hex, ColorName := Some (color_name_of color_hex)\<rparr>)"

text \<open>
  One iteration of the loop over \<^verbatim>\<open>enumerate(rows)\<close>. \<^verbatim>\<open>row[0]\<close> raises on an
  empty row.
\<close>

definition color_row :: "nat \<Rightarrow> nat \<Rightarrow> item list \<Rightarrow> exn + item list" where
  "color_row page_num row_idx row =
     (case row of
        [] \<Rightarrow> Inl IndexError
      | first # others \<Rightarrow>
          if Type first = ''MVS''
          then Inr (map (\<lambda>eq. eq\<lparr>Color := Some MVS_COLOR, ColorName := Some ''Black''\<rparr>) row)
          else Inr (map (stamp_dsg page_num row_idx (length row)) (enumerate 0 row)))"

fun color_rows :: "nat \<Rightarrow> (nat \<times> item list) list \<Rightarrow> exn + item list list" where
  "color_rows page_num [] = Inr []"
| "color_rows page_num ((row_idx, row) # rest) =
     (case color_row page_num row_idx row of
        Inl e \<Rightarrow> Inl e
      | Inr stamped \<Rightarrow>
          (case color_rows page_num rest of
             Inl e \<Rightarrow> Inl e
           | Inr others \<Rightarrow> Inr (stamped # others)))"

section \<open>The extractor\<close>

text \<open>
  The body of the loop over the pages. The rows share their dictionaries with
  \<^verbatim>\<open>page_equipment\<close>, so after the stamping \<^verbatim>\<open>page_equipment\<close> is the stamped rows
  one after the other (\<open>concat_group_rows\<close> below: the rows, concatenated, are the sorted
  list).
\<close>

definition process_page ::
    "(string \<Rightarrow> string) \<Rightarrow> nat \<Rightarrow> pdf_page \<Rightarrow> string set \<Rightarrow> exn + string set \<times> item list" where
  "process_page summarise page_num pg seen_equipment =
     (case extract_text pg of
        Inl e \<Rightarrow> Inl e
      | Inr full_page_text \<Rightarrow>
     (case extract_words pg of
        Inl e \<Rightarrow> Inl e
      | Inr words \<Rightarrow>
     (case scan_words summarise page_num full_page_text words seen_equipment of
        (seen', page_equipment) \<Rightarrow>
     (let sorted_equipment = sort_key (\<lambda>x. (y_position x, x_position x)) page_equipment;
          rows = group_rows sorted_equipment
      in case color_rows page_num (enumerate 0 rows) of
           Inl e \<Rightarrow> Inl e
         | Inr stamped \<Rightarrow> Inr (seen', concat stamped)))))"

fun process_pages ::
    "(string \<Rightarrow> string) \<Rightarrow> (nat \<times> pdf_page) list \<Rightarrow> string set \<Rightarrow> item list \<Rightarrow> exn + item list" where
  "process_pages summarise [] seen_equipment equipment_data = Inr equipment_data"
| "process_pages summarise ((page_num, pg) # rest) seen_equipment equipment_data =
     (case process_page summarise page_num pg seen_equipment of
        Inl e \<Rightarrow> Inl e
      | Inr (seen', page_equipment) \<Rightarrow>
          process_pages summarise rest seen' (equipment_data @ page_equipment))"

text \<open>
  \<^verbatim>\<open>extract_with_positions_pdfplumber\<close>: the \<^verbatim>\<open>except Exception\<close> clause turns every
  raise into the result \<open>None\<close>.
\<close>

definition extract_with_positions_pdfplumber ::
    "(string \<Rightarrow> string) \<Rightarrow> pdf \<Rightarrow> item list option" where
  "extract_with_positions_pdfplumber summarise source =
     (case source of
        Inl e \<Rightarrow> None
      | Inr pages \<Rightarrow>
          (case process_pages summarise (enumerate 0 pages) {} [] of
             Inl e \<Rightarrow> None
           | Inr equipment_data \<Rightarrow>
               Some (map (\<lambda>eq. eq\<lparr>Alternate_From := [], Primary_From := []\<rparr>)
                      (sort_key (\<lambda>x. (page x, y_position x, x_position x)) equipment_data))))"

definition extract_from_pdf :: "(string \<Rightarrow> string) \<Rightarrow> pdf \<Rightarrow> item list option" where
  "extract_from_pdf summarise source =
     (case extract_with_positions_pdfplumber summarise source of
        None \<Rightarrow> None
      | Some equipment_data \<Rightarrow> if 0 < length equipment_data then Some equipment_data else None)"

section \<open>Connection resolver\<close>

text \<open>
  \<^verbatim>\<open>populate_connections\<close> writes into the dictionaries of \<^verbatim>\<open>equipment_data\<close> through
  the lists \<^verbatim>\<open>dsg_equipment\<close> and \<^verbatim>\<open>dsg_by_page\<close>, which share them. The store is the
  list \<^verbatim>\<open>equipment_data\<close> itself and a dictionary is referred to by its position there.
  \<^verbatim>\<open>dsg_by_page\<close> is an association list in insertion order.
\<close>

fun add_to_page :: "(nat \<times> nat list) list \<Rightarrow> nat \<Rightarrow> nat \<Rightarrow> (nat \<times> nat list) list" where
  "add_to_page [] p i = [(p, [i])]"
| "add_to_page ((q, refs) # rest) p i =
     (if q = p then (q, refs @ [i]) # rest else (q, refs) # add_to_page rest p i)"

fun group_dsg_by_page ::
    "item list \<Rightarrow> nat list \<Rightarrow> (nat \<times> nat list) list \<Rightarrow> (nat \<times> nat list) list" where
  "group_dsg_by_page store [] dsg_by_page = dsg_by_page"
| "group_dsg_by_page store (i # rest) dsg_by_page =
     group_dsg_by_page store rest (add_to_page dsg_by_page (page (store ! i)) i)"

text \<open>The body of the inner loop: the two branches that write the sources.\<close>

definition assign_sources :: "item list \<Rightarrow> item \<Rightarrow> item" where
  "assign_sources mvs_on_page dsg =
     (if 2 \<le> length mvs_on_page then
        dsg\<lparr>Primary_From := Equipment (mvs_on_page ! 0),
            Alternate_From := Equipment (mvs_on_page ! 1)\<rparr>
      else if length mvs_on_page = 1 then
        dsg\<lparr>Primary_From := Equipment (mvs_on_page ! 0)\<rparr>
      else dsg)"

definition mvs_for_page :: "item list \<Rightarrow> nat \<Rightarrow> item list" where
  "mvs_for_page mvs_equipment p =
     (let mvs_on_page = filter (\<lambda>mvs. page mvs = p) mvs_equipment
      in if mvs_on_page = [] \<and> mvs_equipment \<noteq> []
         then (if 2 \<le> length mvs_equipment then take 2 mvs_equipment else mvs_equipment)
         else mvs_on_page)"

fun assign_on_page :: "item list \<Rightarrow> nat list \<Rightarrow> item list \<Rightarrow> item list" where
  "assign_on_page mvs_on_page [] store = store"
| "assign_on_page mvs_on_page (i # rest) store =
     assign_on_page mvs_on_page rest (store[i := assign_sources mvs_on_page (store ! i)])"

fun assign_connections ::
    "item list \<Rightarrow> (nat \<times> nat list) list \<Rightarrow> item list \<Rightarrow> item list" where
  "assign_connections mvs_equipment [] store = store"
| "assign_connections mvs_equipment ((p, dsgs_on_page) # rest) store =
     assign_connections mvs_equipment rest
       (assign_on_page (mvs_for_page mvs_equipment p) dsgs_on_page store)"

definition populate_connections :: "item list \<Rightarrow> item list" where
  "populate_connections equipment_data =
     (let mvs_equipment = filter (\<lambda>x. Type x = ''MVS'') equipment_data;
          dsg_equipment = filter (\<lambda>i. Type (equipment_data ! i) = ''DSG'')
                            [0..<length equipment_data]
      in if mvs_equipment = [] then equipment_data
         else (let dsg_by_page = group_dsg_by_page equipment_data dsg_equipment [];
                   mvs_sorted = sort_key (\<lambda>x. (page x, y_position x, x_position x)) mvs_equipment
               in assign_connections mvs_sorted dsg_by_page equipment_data))"

text \<open>
  \<^verbatim>\<open>main\<close>, as far as the item list goes: the spreadsheet and the printed summary are
  left out.
\<close>

definition main :: "(string \<Rightarrow> string) \<Rightarrow> pdf \<Rightarrow> item list option" where
  "main summarise source =
     (case extract_from_pdf summarise source of
        None \<Rightarrow> None
      | Some equipment_data \<Rightarrow>
          if length equipment_data = 0 then None
          else Some (populate_connections equipment_data))"

section \<open>Notions of the specification\<close>

text \<open>
  Every consecutive pair of y-positions differs by less than the threshold, the
  difference being the one the code computes.
\<close>

fun consecutive_close :: "item list \<Rightarrow> bool" where
  "consecutive_close (a # b # rest) =
     (\<bar>float_sub (y_position b) (y_position a)\<bar> < y_threshold \<and> consecutive_close (b # rest))"
| "consecutive_close _ = True"

fun close_from :: "real \<Rightarrow> item list \<Rightarrow> bool" where
  "close_from ly [] = True"
| "close_from ly (a # rest) =
     (\<bar>float_sub (y_position a) ly\<bar> < y_threshold \<and> close_from (y_position a) rest)"

text \<open>The same with the exact difference of the two numbers.\<close>

fun exactly_close :: "item list \<Rightarrow> bool" where
  "exactly_close (a # b # rest) =
     (\<bar>y_position b - y_position a\<bar> < y_threshold \<and> exactly_close (b # rest))"
| "exactly_close _ = True"

text \<open>
  The number of items, after the one at \<open>ly\<close>, whose computed distance to their
  predecessor is not below the threshold.
\<close>

fun breaks :: "real \<Rightarrow> item list \<Rightarrow> nat" where
  "breaks ly [] = 0"
| "breaks ly (a # rest) =
     (if \<bar>float_sub (y_position a) ly\<bar> < y_threshold then 0 else 1) + breaks (y_position a) rest"

text \<open>What identifies an item: the fields the scan gives it.\<close>

definition identity_of :: "item \<Rightarrow> string \<times> string \<times> nat \<times> real \<times> real" where
  "identity_of e = (Equipment e, Type e, page e, x_position e, y_position e)"

text \<open>An unstamped item, for the examples.\<close>

definition fresh_item :: "string \<Rightarrow> nat \<Rightarrow> real \<Rightarrow> real \<Rightarrow> item" where
  "fresh_item name page_num x y =
     \<lparr>Equipment = name, Type = take 3 name, Properties = [], x_position = x,
      y_position = y, page = page_num, Color = None, ColorName = None,
      Alternate_From = [], Primary_From = []\<rparr>"

text \<open>The doubles nearest to 0.3 and to 50.3, and two items at these heights.\<close>

definition double_0_3 :: real where
  "double_0_3 = 5404319552844595 / 18014398509481984"

definition double_50_3 :: real where
  "double_50_3 = 3539547832136499 / 70368744177664"

definition rounding_pair :: "item list" where
  "rounding_pair = [fresh_item ''DSGAA100'' 0 10 double_0_3, fresh_item ''DSGAA101'' 0 10 double_50_3]"

definition drifting_items :: "item list" where
  "drifting_items =
     [fresh_item ''DSGAA100'' 0 10 0, fresh_item ''DSGAA101'' 0 10 40,
      fresh_item ''DSGAA102'' 0 10 80, fresh_item ''DSGAA103'' 0 10 120]"

text \<open>The extractor raises somewhere: on opening, or on reading the text or words of a page.\<close>

definition page_raises :: "pdf_page \<Rightarrow> bool" where
  "page_raises pg = (isl (extract_text pg) \<or> isl (extract_words pg))"

definition extractor_raises :: "pdf \<Rightarrow> bool" where
  "extractor_raises source =
     (case source of Inl e \<Rightarrow> True | Inr pages \<Rightarrow> list_ex page_raises pages)"

text \<open>
  The window of 300 characters on each side of the first occurrence of the name in the
  text of the page.
\<close>

definition char_window :: "string \<Rightarrow> string \<Rightarrow> string" where
  "char_window name full_text =
     (case find_sub name full_text of
        None \<Rightarrow> []
      | Some s \<Rightarrow> drop (s - 300) (take (s + length name + 300) full_text))"

text \<open>A name: three capitals, two capitals or digits, three digits.\<close>

definition well_formed_name :: "string \<Rightarrow> bool" where
  "well_formed_name name =
     (length name = 8 \<and> list_all is_upper (take 3 name)
      \<and> list_all is_upper_or_digit (take 2 (drop 3 name))
      \<and> list_all is_digit (drop 5 name))"

text \<open>Words and pages for the examples.\<close>

definition quoted :: "string \<Rightarrow> string" where
  "quoted name = quote # name @ [quote]"

definition word_at :: "string \<Rightarrow> real \<Rightarrow> real \<Rightarrow> word" where
  "word_at t x y = \<lparr>word_text = t, word_x0 = x, word_top = y\<rparr>"

definition example_page :: pdf_page where
  "example_page =
     \<lparr>extract_text = Inr ''MVSAA100 MVSAA101 DSGAA102 DSGAA103'',
      extract_words = Inr [word_at (quoted ''MVSAA100'') 10 10,
                           word_at (quoted ''MVSAA101'') 200 10,
                           word_at (quoted ''DSGAA102'') 10 100,
                           word_at (quoted ''DSGAA103'') 200 100]\<rparr>"

definition failing_page :: pdf_page where
  "failing_page = \<lparr>extract_text = Inr [], extract_words = Inl ExtractorError\<rparr>"

definition three_words :: "word list" where
  "three_words = [word_at ''x'' 0 0, word_at (quoted ''DSGBB100'') 5 0, word_at ''z'' 9 0]"

text \<open>
  What a word would give an item, were it the first with its name: the words of a page
  whose text matches the pattern with a recognised prefix, in scan order, then page after
  page.
\<close>

type_synonym candidate = "string \<times> string \<times> nat \<times> real \<times> real"

definition word_candidate :: "nat \<Rightarrow> word \<Rightarrow> candidate option" where
  "word_candidate page_num w =
     (case equipment_search (word_text w) of
        None \<Rightarrow> None
      | Some name \<Rightarrow>
          if take 3 name \<in> set [''MVS'', ''DSG'']
          then Some (name, take 3 name, page_num, word_x0 w, word_top w)
          else None)"

definition page_candidates :: "nat \<Rightarrow> word list \<Rightarrow> candidate list" where
  "page_candidates page_num words = List.map_filter (word_candidate page_num) words"

definition words_of :: "pdf_page \<Rightarrow> word list" where
  "words_of pg = (case extract_words pg of Inl e \<Rightarrow> [] | Inr words \<Rightarrow> words)"

definition all_candidates :: "pdf_page list \<Rightarrow> candidate list" where
  "all_candidates pages =
     concat (map (\<lambda>(page_num, pg). page_candidates page_num (words_of pg)) (enumerate 0 pages))"

text \<open>
  First occurrence wins: a candidate is kept when no earlier candidate has its name.
\<close>

definition first_occurrences :: "candidate list \<Rightarrow> candidate list" where
  "first_occurrences cs =
     map snd (filter (\<lambda>(k, c). fst c \<notin> fst ` set (take k cs)) (enumerate 0 cs))"

text \<open>The same, by recursion, against a set of names already seen.\<close>

fun keep_first :: "string set \<Rightarrow> candidate list \<Rightarrow> candidate list" where
  "keep_first seen [] = []"
| "keep_first seen (c # cs) =
     (if fst c \<in> seen then keep_first seen cs else c # keep_first (insert (fst c) seen) cs)"

definition duplicate_pages :: "pdf_page list" where
  "duplicate_pages =
     [\<lparr>extract_text = Inr [],
       extract_words = Inr [word_at (quoted ''DSGAA102'') 10 100,
                            word_at (quoted ''MVSAA100'') 10 10,
                            word_at (quoted ''DSGAA102'') 300 100]\<rparr>,
      \<lparr>extract_text = Inr [],
       extract_words = Inr [word_at (quoted ''MVSAA100'') 10 10,
                            word_at (quoted ''DSGBB200'') 10 100]\<rparr>]"

text \<open>
  The service items selected for a page: those of the page, in the order of
  (page, y, x); when the page has none, the first two of all service items in that
  order.
\<close>

definition selected_service :: "item list \<Rightarrow> nat \<Rightarrow> item list" where
  "selected_service items p =
     (let service = sort_key (\<lambda>x. (page x, y_position x, x_position x))
                      (filter (\<lambda>x. Type x = ''MVS'') items);
          on_page = filter (\<lambda>x. page x = p) service
      in if on_page \<noteq> [] then on_page else take 2 service)"

text \<open>
  The references held by \<^verbatim>\<open>dsg_by_page\<close>, and its invariant: every reference stands
  under the page of its item.
\<close>

definition refs_of :: "(nat \<times> nat list) list \<Rightarrow> nat set" where
  "refs_of d = (\<Union>(p, idxs) \<in> set d. set idxs)"

definition grouped_by_page :: "item list \<Rightarrow> (nat \<times> nat list) list \<Rightarrow> bool" where
  "grouped_by_page store d =
     (\<forall>(p, idxs) \<in> set d. \<forall>i \<in> set idxs. i < length store \<and> page (store ! i) = p)"

text \<open>Item lists for the examples of the resolver.\<close>

definition fed_items :: "item list" where
  "fed_items =
     [fresh_item ''MVSAA101'' 0 200 10, fresh_item ''MVSAA100'' 0 10 10,
      fresh_item ''DSGAA102'' 0 10 100, fresh_item ''DSGBB200'' 1 10 100]"

definition single_feed_items :: "item list" where
  "single_feed_items = [fresh_item ''MVSAA100'' 0 10 10, fresh_item ''DSGAA102'' 0 10 100]"

section \<open>Facts about the colour table\<close>

lemma length_COLOR_SEQUENCE: "length COLOR_SEQUENCE = 8"
  by (simp add: COLOR_SEQUENCE_def)

lemma below_eight: "k < (8::nat) \<Longrightarrow> k = 0 \<or> k = 1 \<or> k = 2 \<or> k = 3 \<or> k = 4 \<or> k = 5 \<or> k = 6 \<or> k = 7"
  by arith

lemma palette_index_entry:
  assumes "k < 8"
  shows "palette_index (snd (COLOR_SEQUENCE ! k)) = Some k"
  using below_eight [OF assms]
  by (elim disjE) (simp_all add: palette_index_def COLOR_SEQUENCE_def)

lemma nat_mod_eight: "nat (c mod 8) < 8"
  by simp

lemma color_of_index:
  "palette_index (snd (COLOR_SEQUENCE ! nat (c mod 8))) = Some (nat (c mod 8))"
  by (rule palette_index_entry) (rule nat_mod_eight)

text \<open>The last branch of the assigner: the sequence that starts at index 1.\<close>

lemma default_sequence_index:
  assumes "\<not> (p = 0 \<and> r = 0)" and "\<not> (p = 1 \<and> r = 0 \<and> c = n - 1)"
  shows "palette_index (get_dsg_color_by_position p r c n) = Some (nat ((c + 1) mod 8))"
proof -
  have "get_dsg_color_by_position p r c n = snd (COLOR_SEQUENCE ! nat ((c + 1) mod 8))"
    using assms by (auto simp add: get_dsg_color_by_position_def length_COLOR_SEQUENCE)
  then show ?thesis
    by (simp only: color_of_index)
qed

section \<open>Position-to-colour assigner\<close>

text \<open>
  C1. On page 0, row 0 the assigner returns the colour of palette index \<open>c mod 8\<close> for
  every column \<open>c\<close>: column 0 gets the anchor index 0 (which is also \<open>0 mod 8\<close>), columns
  1 to 7 get the indices 1 to 7, and column 8 wraps to the anchor index 0 again. The row
  length plays no part.
\<close>

theorem first_page_first_row_color:
  "get_dsg_color_by_position 0 0 c n = snd (COLOR_SEQUENCE ! nat (c mod 8))
   \<and> palette_index (get_dsg_color_by_position 0 0 c n) = Some (nat (c mod 8))
   \<and> palette_index (get_dsg_color_by_position 0 0 0 n) = Some 0
   \<and> map (\<lambda>k. palette_index (get_dsg_color_by_position 0 0 k n)) [1, 2, 3, 4, 5, 6, 7]
       = map Some [1, 2, 3, 4, 5, 6, 7]
   \<and> palette_index (get_dsg_color_by_position 0 0 8 n) = Some 0"
proof -
  have hex: "get_dsg_color_by_position 0 0 k n = snd (COLOR_SEQUENCE ! nat (k mod 8))" for k
    by (simp add: get_dsg_color_by_position_def length_COLOR_SEQUENCE)
  have idx: "palette_index (get_dsg_color_by_position 0 0 k n) = Some (nat (k mod 8))" for k
    unfolding hex by (rule color_of_index)
  show ?thesis
    using hex [of c] idx [of c] idx [of 0] idx [of 1] idx [of 2] idx [of 3] idx [of 4]
      idx [of 5] idx [of 6] idx [of 7] idx [of 8]
    by simp
qed

text \<open>
  C2 as stated fails: a call that neither rule 1 nor rule 2 matches returns the anchor
  colour at column 7 (here page 0, row 1, a row of 8 columns).
\<close>

theorem other_rows_anchor_counterexample:
  "palette_index (get_dsg_color_by_position 0 1 7 8) = Some 0"
  by (simp add: get_dsg_color_by_position_def palette_index_def COLOR_SEQUENCE_def)

text \<open>
  C2, amended. For every call matched neither by rule 1 (page 0, row 0) nor by rule 2
  (page 1, row 0, last column), column \<open>c\<close> receives palette index \<open>(c + 1) mod 8\<close>: the
  sequence starts at index 1, and it returns the anchor index 0 exactly at the columns
  \<open>c\<close> with \<open>c mod 8 = 7\<close>.
\<close>

theorem other_rows_color:
  assumes "\<not> (p = 0 \<and> r = 0)" and "\<not> (p = 1 \<and> r = 0 \<and> c = n - 1)"
  shows "palette_index (get_dsg_color_by_position p r c n) = Some (nat ((c + 1) mod 8))
         \<and> (palette_index (get_dsg_color_by_position p r c n) = Some 0 \<longleftrightarrow> c mod 8 = 7)"
proof -
  have idx: "palette_index (get_dsg_color_by_position p r c n) = Some (nat ((c + 1) mod 8))"
    using assms by (rule default_sequence_index)
  have "((c + 1) mod 8 \<le> 0) = (c mod 8 = 7)"
    by presburger
  then have "(nat ((c + 1) mod 8) = 0) = (c mod 8 = 7)"
    by simp
  with idx show ?thesis by simp
qed

theorem other_rows_color_witness:
  "palette_index (get_dsg_color_by_position 0 1 0 7) = Some 1
   \<and> palette_index (get_dsg_color_by_position 0 1 6 7) = Some 7
   \<and> palette_index (get_dsg_color_by_position 1 0 2 7) = Some 3"
  using other_rows_color [of 0 1 0 7] other_rows_color [of 0 1 6 7] other_rows_color [of 1 0 2 7]
  by simp

text \<open>
  C3. On page 1, row 0 the last column (\<open>column_index = row_length - 1\<close>) receives the
  anchor index 0, whatever the row length is.
\<close>

theorem second_page_last_column_color:
  "get_dsg_color_by_position 1 0 (n - 1) n = snd (COLOR_SEQUENCE ! 0)
   \<and> palette_index (get_dsg_color_by_position 1 0 (n - 1) n) = Some 0"
proof -
  have hex: "get_dsg_color_by_position 1 0 (n - 1) n = snd (COLOR_SEQUENCE ! 0)"
    by (simp add: get_dsg_color_by_position_def)
  have "palette_index (snd (COLOR_SEQUENCE ! 0)) = Some 0"
    by (rule palette_index_entry) simp
  with hex show ?thesis by simp
qed

section \<open>Double-precision subtraction\<close>

lemma binade_up_bracket:
  "1 \<le> x \<Longrightarrow> 2 powi binade_up x \<le> x \<and> x < 2 powi (binade_up x + 1)"
proof (induction x rule: binade_up.induct)
  case (1 x)
  show ?case
  proof (cases "x < 2")
    case True
    then have "binade_up x = 0"
      by (subst binade_up.simps) simp
    with True "1.prems" show ?thesis by simp
  next
    case False
    then have "1 \<le> x / 2" by simp
    with "1.IH" [OF False] have ih: "2 powi binade_up (x / 2) \<le> x / 2"
        "x / 2 < 2 powi (binade_up (x / 2) + 1)"
      by simp_all
    have e: "binade_up x = 1 + binade_up (x / 2)"
      using False by (subst binade_up.simps) simp
    from ih show ?thesis
      unfolding e by (simp add: power_int_add field_simps)
  qed
qed

lemma binade_down_bracket:
  "0 < x \<Longrightarrow> x < 1 \<Longrightarrow> 2 powi binade_down x \<le> x \<and> x < 2 powi (binade_down x + 1)"
proof (induction x rule: binade_down.induct)
  case (1 x)
  show ?case
  proof (cases "1 \<le> 2 * x")
    case True
    have "binade_down (2 * x) = 0"
      using True by (subst binade_down.simps) simp
    then have e: "binade_down x = - 1"
      using "1.prems" by (subst binade_down.simps) simp
    from True "1.prems" show ?thesis
      unfolding e by (simp add: power_int_minus)
  next
    case False
    with "1.prems" have "\<not> (x \<le> 0 \<or> 1 \<le> x)" "0 < 2 * x" "2 * x < 1"
      by simp_all
    from "1.IH" [OF this] have ih: "2 powi binade_down (2 * x) \<le> 2 * x"
        "2 * x < 2 powi (binade_down (2 * x) + 1)"
      by simp_all
    have e: "binade_down x = binade_down (2 * x) - 1"
      using "1.prems" by (subst binade_down.simps) simp
    from ih show ?thesis
      unfolding e by (simp add: power_int_diff power_int_add field_simps)
  qed
qed

text \<open>The binade of a positive number brackets it between two powers of two.\<close>

lemma binade_bracket: "0 < x \<Longrightarrow> 2 powi binade x \<le> x \<and> x < 2 powi (binade x + 1)"
  using binade_up_bracket [of x] binade_down_bracket [of x]
  by (cases "1 \<le> x") (simp_all add: binade_def)

lemma round_half_even_near: "\<bar>of_int (round_half_even x) - x\<bar> \<le> 1 / 2"
  by (simp add: round_half_even_def Let_def)

text \<open>The rounded value is within half a unit in the last place of the exact one.\<close>

lemma round_double_near:
  "\<bar>round_double x - x\<bar> \<le> 2 powi (max (- 1074) (binade \<bar>x\<bar> - 52)) / 2"
proof (cases "x = 0")
  case True
  then show ?thesis by (simp add: round_double_def)
next
  case False
  define q where "q = max (- 1074) (binade \<bar>x\<bar> - 52)"
  define m where "m = round_half_even (\<bar>x\<bar> / 2 powi q)"
  have pos: "0 < (2::real) powi q"
    by simp
  have rd: "round_double x = sgn x * (of_int m * 2 powi q)"
    using False by (simp add: round_double_def q_def m_def Let_def)
  have "\<bar>round_double x - x\<bar> = \<bar>sgn x * (of_int m * 2 powi q) - sgn x * \<bar>x\<bar>\<bar>"
    by (simp add: rd sgn_mult_abs)
  also have "\<dots> = \<bar>sgn x * (of_int m * 2 powi q - \<bar>x\<bar>)\<bar>"
    by (simp only: right_diff_distrib)
  also have "\<dots> = \<bar>of_int m * 2 powi q - \<bar>x\<bar>\<bar>"
    using False by (simp add: abs_mult abs_sgn_eq)
  also have "\<dots> = \<bar>(of_int m - \<bar>x\<bar> / 2 powi q) * 2 powi q\<bar>"
    using pos by (simp add: left_diff_distrib)
  also have "\<dots> = \<bar>of_int m - \<bar>x\<bar> / 2 powi q\<bar> * 2 powi q"
    using pos by (simp add: abs_mult)
  also have "\<dots> \<le> (1 / 2) * 2 powi q"
    unfolding m_def using round_half_even_near [of "\<bar>x\<bar> / 2 powi q"] pos
    by (intro mult_right_mono) simp_all
  finally show ?thesis
    by (simp add: q_def)
qed

section \<open>Position clusterer\<close>

lemma consecutive_close_Cons: "consecutive_close (a # rest) = close_from (y_position a) rest"
  by (induction rest arbitrary: a) auto

lemma close_from_breaks: "close_from ly xs = (breaks ly xs = 0)"
  by (induction xs arbitrary: ly) auto

lemma group_loop_concat:
  "group_loop xs rows current_row last_y = (rows', current_row')
   \<Longrightarrow> concat rows' @ current_row' = concat rows @ current_row @ xs"
  by (induction xs rows current_row last_y rule: group_loop.induct) (auto split: if_splits)

lemma group_loop_nonempty:
  "group_loop xs rows current_row last_y = (rows', current_row') \<Longrightarrow> [] \<notin> set rows
   \<Longrightarrow> [] \<notin> set rows'"
  by (induction xs rows current_row last_y rule: group_loop.induct) (auto split: if_splits)

text \<open>A row is closed exactly at each break.\<close>

lemma group_loop_breaks:
  "current_row \<noteq> [] \<Longrightarrow> group_loop xs rows current_row (Some ly) = (rows', current_row')
   \<Longrightarrow> length rows' = length rows + breaks ly xs \<and> current_row' \<noteq> []"
proof (induction xs arbitrary: rows current_row ly)
  case Nil
  then show ?case by simp
next
  case (Cons a xs)
  show ?case
  proof (cases "\<bar>float_sub (y_position a) ly\<bar> < y_threshold")
    case True
    with Cons.prems(2)
    have "group_loop xs rows (current_row @ [a]) (Some (y_position a)) = (rows', current_row')"
      by simp
    with Cons.IH [of "current_row @ [a]" rows "y_position a"] True show ?thesis
      by simp
  next
    case False
    with Cons.prems
    have "group_loop xs (rows @ [current_row]) [a] (Some (y_position a)) = (rows', current_row')"
      by simp
    with Cons.IH [of "[a]" "rows @ [current_row]" "y_position a"] False show ?thesis
      by simp
  qed
qed

text \<open>The rows, one after the other, are the list that was clustered.\<close>

lemma concat_group_rows: "concat (group_rows xs) = xs"
proof -
  obtain rows cur where g: "group_loop xs [] [] None = (rows, cur)"
    by (cases "group_loop xs [] [] None")
  from group_loop_concat [OF g] show ?thesis
    by (auto simp add: group_rows_def g)
qed

lemma group_rows_nonempty: "[] \<notin> set (group_rows xs)"
proof -
  obtain rows cur where g: "group_loop xs [] [] None = (rows, cur)"
    by (cases "group_loop xs [] [] None")
  from group_loop_nonempty [OF g] show ?thesis
    by (simp add: group_rows_def g)
qed

lemma length_group_rows:
  "length (group_rows (a # rest)) = Suc (breaks (y_position a) rest)"
proof -
  obtain rows cur where g: "group_loop rest [] [a] (Some (y_position a)) = (rows, cur)"
    by (cases "group_loop rest [] [a] (Some (y_position a))")
  from group_loop_breaks [OF _ g] have "length rows = breaks (y_position a) rest" "cur \<noteq> []"
    by simp_all
  with g show ?thesis
    by (simp add: group_rows_def)
qed

text \<open>
  C4 does not hold when the difference is read as the exact difference of the two
  numbers. The doubles nearest to 0.3 and 50.3 are less than 50 apart, by \<open>51 / 2^54\<close>;
  their difference rounds to the double 50, which is not below the threshold, and the
  two items (sorted, one pair) go to two rows.
\<close>

theorem rounded_difference_counterexample:
  "round_double double_0_3 = double_0_3 \<and> round_double double_50_3 = double_50_3
   \<and> sorted (map (\<lambda>e. (y_position e, x_position e)) rounding_pair)
   \<and> exactly_close rounding_pair
   \<and> float_sub double_50_3 double_0_3 = 50
   \<and> group_rows rounding_pair
       = [[fresh_item ''DSGAA100'' 0 10 double_0_3], [fresh_item ''DSGAA101'' 0 10 double_50_3]]"
proof -
  have "round_double double_0_3 = double_0_3" "round_double double_50_3 = double_50_3"
    by code_simp+
  moreover have "sorted (map (\<lambda>e. (y_position e, x_position e)) rounding_pair)"
    by (simp add: rounding_pair_def fresh_item_def double_0_3_def double_50_3_def)
  moreover have "exactly_close rounding_pair"
    by (simp add: rounding_pair_def fresh_item_def double_0_3_def double_50_3_def
          y_threshold_def)
  moreover have sub: "float_sub double_50_3 double_0_3 = 50"
    by code_simp
  moreover have "group_rows rounding_pair
       = [[fresh_item ''DSGAA100'' 0 10 double_0_3], [fresh_item ''DSGAA101'' 0 10 double_50_3]]"
    by (simp add: group_rows_def rounding_pair_def fresh_item_def sub y_threshold_def)
  ultimately show ?thesis by simp
qed

text \<open>
  C4, amended. Take the difference of two y-positions as the code computes it: the
  double-precision subtraction, rounded to nearest. A non-empty list of items in which
  every consecutive pair of y-positions differs by less than the threshold of 50 units
  is clustered into exactly one row holding all the items: membership is decided against
  the previous item's y-position, so the row drifts, however far the first and the last
  item are apart. Conversely one row comes out only of such a list: the number of rows is
  one more than the number of consecutive pairs not below the threshold. (That the list
  is sorted is not needed.)
\<close>

theorem drift_single_row:
  assumes "xs \<noteq> []"
  shows "(consecutive_close xs \<longrightarrow> group_rows xs = [xs])
         \<and> (group_rows xs = [xs] \<longrightarrow> consecutive_close xs)
         \<and> length (group_rows xs) = Suc (breaks (y_position (hd xs)) (tl xs))"
proof -
  from assms obtain a rest where xs: "xs = a # rest"
    by (cases xs) auto
  have len: "length (group_rows xs) = Suc (breaks (y_position a) rest)"
    unfolding xs by (rule length_group_rows)
  have close: "consecutive_close xs = (breaks (y_position a) rest = 0)"
    by (simp add: xs consecutive_close_Cons close_from_breaks)
  have "group_rows xs = [xs]" if "consecutive_close xs"
  proof -
    from that len close have "length (group_rows xs) = 1"
      by simp
    then obtain r where r: "group_rows xs = [r]"
      by (cases "group_rows xs") auto
    with concat_group_rows [of xs] show ?thesis
      by simp
  qed
  moreover have "consecutive_close xs" if "group_rows xs = [xs]"
    using that len close by simp
  ultimately show ?thesis
    using len by (auto simp add: xs)
qed

text \<open>
  Four items 40 units apart each: one row, although the first and the last are 120
  units apart.
\<close>

theorem drift_single_row_witness:
  "group_rows drifting_items = [drifting_items]
   \<and> 50 \<le> \<bar>float_sub (y_position (last drifting_items)) (y_position (hd drifting_items))\<bar>"
proof -
  have ne: "drifting_items \<noteq> []"
    by (simp add: drifting_items_def)
  have close: "consecutive_close drifting_items"
    by code_simp
  have far: "50 \<le> \<bar>float_sub (y_position (last drifting_items))
      (y_position (hd drifting_items))\<bar>"
    by code_simp
  from drift_single_row [OF ne] close far show ?thesis
    by simp
qed

section \<open>Stamping colours on rows\<close>

lemma identity_of_stamp_dsg: "identity_of (stamp_dsg p i n ce) = identity_of (snd ce)"
  by (cases ce) (simp add: identity_of_def Let_def)

lemma color_row_Inr:
  assumes "row \<noteq> []"
  shows "\<exists>stamped. color_row p i row = Inr stamped \<and> length stamped = length row
           \<and> map identity_of stamped = map identity_of row"
proof -
  have "map (identity_of \<circ> stamp_dsg p i n) ces = map (identity_of \<circ> snd) ces" for n ces
    by (simp add: identity_of_stamp_dsg)
  then have "map identity_of (map (stamp_dsg p i (length row)) (enumerate 0 row))
             = map identity_of row"
    by (simp add: map_snd_enumerate flip: map_map)
  with assms show ?thesis
    by (cases row) (simp_all add: color_row_def identity_of_def comp_def)
qed

text \<open>Rows that are all non-empty are stamped without a raise, and keep their items.\<close>

lemma color_rows_Inr:
  assumes "[] \<notin> set rows"
  shows "\<exists>stamped. color_rows p (enumerate k rows) = Inr stamped
           \<and> length stamped = length rows
           \<and> map identity_of (concat stamped) = map identity_of (concat rows)"
  using assms
proof (induction rows arbitrary: k)
  case Nil
  then show ?case by simp
next
  case (Cons row rows)
  from Cons.prems have "row \<noteq> []" and rest: "[] \<notin> set rows"
    by auto
  from color_row_Inr [OF \<open>row \<noteq> []\<close>, of p k] obtain s
    where s: "color_row p k row = Inr s" "map identity_of s = map identity_of row"
    by blast
  from Cons.IH [OF rest, of "Suc k"] obtain ss
    where ss: "color_rows p (enumerate (Suc k) rows) = Inr ss" "length ss = length rows"
      "map identity_of (concat ss) = map identity_of (concat rows)"
    by blast
  from s ss show ?case by simp
qed



section \<open>Failure of the external extractor\<close>

lemma process_page_raises:
  "page_raises pg \<Longrightarrow> \<exists>e. process_page summarise n pg seen = Inl e"
  by (auto simp add: page_raises_def process_page_def isl_def split: sum.splits prod.splits)

lemma process_pages_raises:
  "list_ex page_raises pages
   \<Longrightarrow> \<exists>e. process_pages summarise (enumerate k pages) seen acc = Inl e"
proof (induction pages arbitrary: k seen acc)
  case Nil
  then show ?case by simp
next
  case (Cons pg pages)
  show ?case
  proof (cases "process_page summarise k pg seen")
    case (Inl e)
    then show ?thesis by simp
  next
    case (Inr r)
    then have "\<not> page_raises pg"
      using process_page_raises [of pg summarise k seen] by auto
    with Cons.prems have "list_ex page_raises pages"
      by simp
    from Cons.IH [OF this] Inr show ?thesis
      by (cases r) simp
  qed
qed

text \<open>
  C7. If the external extractor raises at any point (on opening the file, or on reading
  the text or the words of any page, also after earlier pages were read), the extraction
  returns \<open>None\<close>, never a partial list; \<^verbatim>\<open>extract_from_pdf\<close> and \<^verbatim>\<open>main\<close> return \<open>None\<close>
  too, which is what \<^verbatim>\<open>main\<close> returns for a document with no equipment.
\<close>

theorem extractor_error_no_data:
  assumes "extractor_raises source"
  shows "extract_with_positions_pdfplumber summarise source = None
         \<and> extract_from_pdf summarise source = None
         \<and> main summarise source = None
         \<and> main summarise source = main summarise (Inr [])"
proof -
  have none: "extract_with_positions_pdfplumber summarise source = None"
  proof (cases source)
    case (Inl e)
    then show ?thesis
      by (simp add: extract_with_positions_pdfplumber_def)
  next
    case (Inr pages)
    with assms have "list_ex page_raises pages"
      by (simp add: extractor_raises_def)
    from process_pages_raises [OF this, of summarise 0 "{}" "[]"] Inr show ?thesis
      by (auto simp add: extract_with_positions_pdfplumber_def)
  qed
  have empty: "main summarise (Inr []) = None"
    by (simp add: main_def extract_from_pdf_def extract_with_positions_pdfplumber_def)
  from none empty show ?thesis
    by (simp add: main_def extract_from_pdf_def)
qed

lemma process_page_returns:
  assumes "\<not> page_raises pg"
  shows "\<exists>seen' items. process_page summarise n pg seen = Inr (seen', items)"
proof -
  from assms obtain full ws where pg: "extract_text pg = Inr full" "extract_words pg = Inr ws"
    by (auto simp add: page_raises_def isl_def split: sum.splits) (metis sum.exhaust)
  obtain seen' eqs where sc: "scan_words summarise n full ws seen = (seen', eqs)"
    by (cases "scan_words summarise n full ws seen")
  from group_rows_nonempty color_rows_Inr
  obtain stamped where "color_rows n (enumerate 0
      (group_rows (sort_key (\<lambda>x. (y_position x, x_position x)) eqs))) = Inr stamped"
    by blast
  with pg sc show ?thesis
    by (simp add: process_page_def)
qed

lemma process_pages_returns:
  "\<not> list_ex page_raises pages
   \<Longrightarrow> \<exists>out. process_pages summarise (enumerate k pages) seen acc = Inr out"
proof (induction pages arbitrary: k seen acc)
  case Nil
  then show ?case by simp
next
  case (Cons pg pages)
  then have "\<not> page_raises pg" and rest: "\<not> list_ex page_raises pages"
    by simp_all
  from process_page_returns [OF this(1), of summarise k seen] obtain seen' items
    where "process_page summarise k pg seen = Inr (seen', items)"
    by blast
  with Cons.IH [OF rest] show ?case by simp
qed

lemma extract_returns:
  assumes "\<not> extractor_raises source"
  shows "\<exists>out. extract_with_positions_pdfplumber summarise source = Some out"
proof -
  from assms obtain pages where src: "source = Inr pages" and "\<not> list_ex page_raises pages"
    by (cases source) (simp_all add: extractor_raises_def)
  from process_pages_returns [OF this(2), of summarise 0 "{}" "[]"] src show ?thesis
    by (auto simp add: extract_with_positions_pdfplumber_def)
qed


text \<open>
  A first page with four items, then a page whose words cannot be read: no data, although
  the first page alone gives a result.
\<close>

theorem extractor_error_no_data_witness:
  "extract_with_positions_pdfplumber id (Inr [example_page, failing_page]) = None
   \<and> main id (Inr [example_page, failing_page]) = None
   \<and> (\<exists>out. extract_with_positions_pdfplumber id (Inr [example_page]) = Some out)"
proof -
  have raises: "extractor_raises (Inr [example_page, failing_page])"
    by (simp add: extractor_raises_def page_raises_def failing_page_def)
  have "\<not> extractor_raises (Inr [example_page])"
    by (simp add: extractor_raises_def page_raises_def example_page_def)
  then have "\<exists>out. extract_with_positions_pdfplumber id (Inr [example_page]) = Some out"
    by (rule extract_returns)
  with extractor_error_no_data [OF raises, of id] show ?thesis
    by simp
qed

section \<open>Context window and search text\<close>

lemma find_sub_first:
  "find_sub pat s = Some k
   \<Longrightarrow> take (length pat) (drop k s) = pat \<and> k \<le> length s
       \<and> (\<forall>j<k. take (length pat) (drop j s) \<noteq> pat)"
proof (induction s arbitrary: k)
  case Nil
  then show ?case by (simp split: if_splits)
next
  case (Cons c cs)
  show ?case
  proof (cases "take (length pat) (c # cs) = pat")
    case True
    with Cons.prems show ?thesis by simp
  next
    case False
    with Cons.prems obtain k' where k': "find_sub pat cs = Some k'" "k = Suc k'"
      by auto
    from Cons.IH [OF k'(1)] False k'(2) show ?thesis
      by (auto simp add: less_Suc_eq_0_disj)
  qed
qed

lemma find_sub_None:
  "find_sub pat s = None \<Longrightarrow> take (length pat) (drop j s) \<noteq> pat"
proof (induction s arbitrary: j)
  case Nil
  then show ?case by (auto split: if_splits)
next
  case (Cons c cs)
  then show ?case
    by (cases j) (auto split: if_splits)
qed

lemma context_words_split:
  assumes "i < length words"
  shows "context_words words i
         = drop (i - 10) (take i words) @ [words ! i] @ take 39 (drop (Suc i) words)"
proof -
  have "take (i + 40) words = take i words @ take 40 (drop i words)"
    by (simp add: take_add)
  also from assms have "drop i words = words ! i # drop (Suc i) words"
    by (simp add: Cons_nth_drop_Suc)
  finally have "take (i + 40) words = take i words @ [words ! i] @ take 39 (drop (Suc i) words)"
    by (simp add: numeral_eq_Suc)
  moreover have "take (min (length words) (i + 40)) words = take (i + 40) words"
    by (simp add: min_def)
  moreover have "nat (max 0 (int i - 10)) = i - 10"
    by simp
  ultimately show ?thesis
    using assms by (simp add: context_words_def Let_def)
qed

lemma choose_search_text_eq:
  "choose_search_text name context_text full_text
   = (if lacks_indicators context_text \<and> contains name full_text
      then char_window name full_text else context_text)"
proof -
  have "nat (max 0 (int s - 300)) = s - 300" for s :: nat
    by simp
  moreover have "drop a (take (min n b) xs) = drop a (take b xs)" if "n = length xs" for a b n
    and xs :: string
    using that by (simp add: min_def)
  ultimately show ?thesis
    by (simp add: choose_search_text_def char_window_def contains_def Let_def
          split: option.splits)
qed

lemma scan_word_new_item:
  assumes "equipment_search (word_text w) = Some name" and "take 3 name \<in> set [''MVS'', ''DSG'']"
    and "name \<notin> seen"
  shows "\<exists>e. scan_word summarise page_num full_text words (seen, acc) (i, w)
               = (insert name seen, acc @ [e])
             \<and> identity_of e = (name, take 3 name, page_num, word_x0 w, word_top w)
             \<and> Properties e = summarise
                 (choose_search_text name (context_text_of words i) full_text)"
  using assms by (auto simp add: identity_of_def extract_properties_enhanced_def Let_def)

text \<open>
  C8 as stated fails. With the matching word at index 0, followed by 39 words and then
  one more, the window ends before the 40th word after the match; and a window without
  indicators is kept when the name does not occur in the text of the page.
\<close>

theorem context_window_counterexample:
  "context_words (word_at (quoted ''DSGBB100'') 0 0 # replicate 39 (word_at ''x'' 0 0)
                    @ [word_at ''y'' 0 0]) 0
     = word_at (quoted ''DSGBB100'') 0 0 # replicate 39 (word_at ''x'' 0 0)
   \<and> lacks_indicators ''x''
   \<and> choose_search_text ''DSGBB100'' ''x'' ''none'' = ''x''"
  by (simp add: context_words_def choose_search_text_def lacks_indicators_def
        value_unit_indicators_def contains_def upper_def upper_char_def lower_chars_def
        upper_chars_def)

text \<open>
  C8, amended. For a matched equipment word at index \<open>i\<close> the context window is the
  slice from \<open>max 0 (i - 10)\<close> up to, not including, \<open>min (length words) (i + 40)\<close>: up to
  10 words before the matching word, the word itself and up to 39 words after it. The
  window of 300 characters around the first occurrence of the name in the page text is
  searched instead exactly when the context window lacks the indicators and the name
  occurs in the page text; the properties of the new item are read from that text.
\<close>

theorem context_window_and_fallback:
  assumes "i < length words" and "equipment_search (word_text (words ! i)) = Some name"
    and "take 3 name \<in> set [''MVS'', ''DSG'']" and "name \<notin> seen"
  shows "context_words words i
           = drop (i - 10) (take i words) @ [words ! i] @ take 39 (drop (Suc i) words)
         \<and> choose_search_text name (context_text_of words i) full_text
           = (if lacks_indicators (context_text_of words i) \<and> contains name full_text
              then char_window name full_text else context_text_of words i)
         \<and> Properties (last (snd (scan_word summarise page_num full_text words (seen, acc)
               (i, words ! i))))
           = summarise (if lacks_indicators (context_text_of words i) \<and> contains name full_text
                        then char_window name full_text else context_text_of words i)"
proof -
  from scan_word_new_item [OF assms(2-4), of summarise page_num full_text words acc i]
  have "Properties (last (snd (scan_word summarise page_num full_text words (seen, acc)
               (i, words ! i))))
        = summarise (choose_search_text name (context_text_of words i) full_text)"
    by auto
  with context_words_split [OF assms(1)] choose_search_text_eq show ?thesis
    by simp
qed

theorem context_window_and_fallback_witness:
  "context_words three_words 1 = three_words
   \<and> choose_search_text ''DSGBB100'' (context_text_of three_words 1) ''500 KVA DSGBB100''
       = ''500 KVA DSGBB100''
   \<and> Properties (last (snd (scan_word id 0 ''500 KVA DSGBB100'' three_words ({}, [])
         (1, three_words ! 1)))) = ''500 KVA DSGBB100''"
proof -
  have len: "1 < length three_words"
    by (simp add: three_words_def)
  have name: "equipment_search (word_text (three_words ! 1)) = Some ''DSGBB100''"
    by code_simp
  have ty: "take 3 ''DSGBB100'' \<in> set [''MVS'', ''DSG'']"
    by simp
  have pieces: "drop (1 - 10) (take 1 three_words) @ [three_words ! 1]
      @ take 39 (drop (Suc 1) three_words) = three_words"
    by (simp add: three_words_def)
  have lacks: "lacks_indicators (context_text_of three_words 1)"
    by code_simp
  have found: "contains ''DSGBB100'' ''500 KVA DSGBB100''"
    by code_simp
  have window: "char_window ''DSGBB100'' ''500 KVA DSGBB100'' = ''500 KVA DSGBB100''"
    by code_simp
  from context_window_and_fallback [OF len name ty, of "{}" "''500 KVA DSGBB100''" id 0 "[]"]
  show ?thesis
    by (simp only: pieces lacks found window simp_thms if_True id_apply empty_iff not_False_eq_True)
qed

section \<open>The equipment pattern\<close>

lemma match_equipment_at_Some:
  assumes "match_equipment_at s = Some name"
  shows "\<exists>post. s = quote # name @ quote # post" and "well_formed_name name"
proof -
  from assms have len: "10 \<le> length s" and q0: "s ! 0 = quote" and q9: "s ! 9 = quote"
    and name: "name = take 8 (drop 1 s)"
    and wf: "list_all is_upper (take 3 name)" "list_all is_upper_or_digit (take 2 (drop 3 name))"
      "list_all is_digit (drop 5 name)"
    by (auto simp add: match_equipment_at_def Let_def split: if_splits)
  from len name show "well_formed_name name"
    using wf by (simp add: well_formed_name_def)
  from len obtain c rest where s: "s = c # rest" and len': "9 \<le> length rest"
    by (cases s) auto
  have "rest = take 8 rest @ drop 8 rest"
    by simp
  moreover from len' have "drop 8 rest = rest ! 8 # drop 9 rest"
    using Cons_nth_drop_Suc [of 8 rest] by simp
  moreover from q0 s have "c = quote" by simp
  moreover from q9 s have "rest ! 8 = quote" by simp
  ultimately have "rest = take 8 rest @ quote # drop 9 rest" and "c = quote"
    by simp_all
  moreover from name s have "name = take 8 rest"
    by simp
  ultimately have "s = quote # name @ quote # drop 9 rest"
    using s by simp
  then show "\<exists>post. s = quote # name @ quote # post"
    by (rule exI)
qed

lemma equipment_search_Some:
  "equipment_search t = Some name
   \<Longrightarrow> (\<exists>pre post. t = pre @ quote # name @ quote # post) \<and> well_formed_name name"
proof (induction t)
  case Nil
  then show ?case by simp
next
  case (Cons c cs)
  show ?case
  proof (cases "match_equipment_at (c # cs)")
    case None
    with Cons.prems have "equipment_search cs = Some name"
      by simp
    from Cons.IH [OF this] obtain pre post
      where "cs = pre @ quote # name @ quote # post" and wf: "well_formed_name name"
      by blast
    then have "c # cs = (c # pre) @ quote # name @ quote # post"
      by simp
    with wf show ?thesis by blast
  next
    case (Some n)
    with Cons.prems have "n = name" by simp
    with Some match_equipment_at_Some [of "c # cs" name] show ?thesis
      by (metis append_Nil)
  qed
qed

lemma equipment_search_no_quote:
  "quote \<notin> set t \<Longrightarrow> equipment_search t = None"
proof (induction t)
  case Nil
  then show ?case by simp
next
  case (Cons c cs)
  then have "match_equipment_at (c # cs) = None"
    by (auto simp add: match_equipment_at_def)
  with Cons show ?case by simp
qed

section \<open>Deduplication\<close>

lemma keep_first_append:
  "keep_first seen (as @ bs) = keep_first seen as @ keep_first (seen \<union> fst ` set as) bs"
  by (induction as arbitrary: seen) (auto simp add: insert_absorb)

lemma keep_first_names: "fst ` set (keep_first seen cs) = fst ` set cs - seen"
  by (induction cs arbitrary: seen) auto

lemma keep_first_distinct: "distinct (map fst (keep_first seen cs))"
proof (induction cs arbitrary: seen)
  case Nil
  then show ?case by simp
next
  case (Cons c cs)
  have "fst c \<notin> fst ` set (keep_first (insert (fst c) seen) cs)"
    by (simp add: keep_first_names)
  with Cons show ?case by simp
qed

lemma keep_first_filter:
  "keep_first seen cs
   = map snd (filter (\<lambda>(k, c). fst c \<notin> seen \<union> fst ` set (take k cs)) (enumerate 0 cs))"
proof (induction cs arbitrary: seen)
  case Nil
  then show ?case by simp
next
  case (Cons c cs)
  have shift: "enumerate (Suc 0) cs = map (\<lambda>(k, d). (Suc k, d)) (enumerate 0 cs)"
    by (simp add: enumerate_Suc_eq apfst_def map_prod_def)
  have "filter (\<lambda>(k, d). fst d \<notin> seen \<union> fst ` set (take k (c # cs))) (enumerate (Suc 0) cs)
      = map (\<lambda>(k, d). (Suc k, d))
          (filter (\<lambda>(k, d). fst d \<notin> insert (fst c) seen \<union> fst ` set (take k cs))
            (enumerate 0 cs))"
    unfolding shift filter_map by (rule arg_cong [where f = "map _"]) (auto simp add: comp_def image_iff intro!: filter_cong)
  then have rest: "map snd (filter (\<lambda>(k, d). fst d \<notin> seen \<union> fst ` set (take k (c # cs)))
        (enumerate (Suc 0) cs))
      = keep_first (insert (fst c) seen) cs"
    by (simp add: Cons.IH comp_def case_prod_unfold)
  show ?case
  proof (cases "fst c \<in> seen")
    case True
    then have "insert (fst c) seen = seen" by auto
    with rest True show ?thesis by simp
  next
    case False
    with rest show ?thesis by simp
  qed
qed

lemma first_occurrences_keep_first: "first_occurrences cs = keep_first {} cs"
  by (simp add: first_occurrences_def keep_first_filter)


lemma scan_word_step:
  "\<exists>acc'. scan_word summarise n full_text words (seen, acc) (i, w)
            = (seen \<union> fst ` set_option (word_candidate n w), acc @ acc')
          \<and> map identity_of acc'
            = keep_first seen (case word_candidate n w of None \<Rightarrow> [] | Some c \<Rightarrow> [c])"
proof (cases "word_candidate n w")
  case None
  then have "scan_word summarise n full_text words (seen, acc) (i, w) = (seen, acc)"
    by (auto simp add: word_candidate_def Let_def split: option.splits if_splits)
  with None show ?thesis by simp
next
  case (Some c)
  then obtain name where name: "equipment_search (word_text w) = Some name"
      "take 3 name \<in> set [''MVS'', ''DSG'']"
      and c: "c = (name, take 3 name, n, word_x0 w, word_top w)"
    by (auto simp add: word_candidate_def split: option.splits if_splits)
  show ?thesis
  proof (cases "name \<in> seen")
    case True
    with name have "scan_word summarise n full_text words (seen, acc) (i, w) = (seen, acc)"
      by (auto simp add: Let_def)
    moreover from True have "seen \<union> {name} = seen" by auto
    ultimately show ?thesis
      using Some c True by simp
  next
    case False
    from scan_word_new_item [OF name False, of summarise n full_text words acc i]
    show ?thesis
      using Some c False by auto
  qed
qed

lemma scan_fold:
  "\<exists>acc'. foldl (scan_word summarise n full_text words) (seen, acc) (enumerate k ws)
            = (seen \<union> fst ` set (page_candidates n ws), acc @ acc')
          \<and> map identity_of acc' = keep_first seen (page_candidates n ws)"
proof (induction ws arbitrary: k seen acc)
  case Nil
  then show ?case by (simp add: page_candidates_def map_filter_simps)
next
  case (Cons w ws)
  let ?one = "case word_candidate n w of None \<Rightarrow> [] | Some c \<Rightarrow> [c]"
  have cands: "page_candidates n (w # ws) = ?one @ page_candidates n ws"
    by (simp add: page_candidates_def map_filter_simps split: option.splits)
  have setc: "fst ` set (page_candidates n (w # ws))
      = fst ` set_option (word_candidate n w) \<union> fst ` set (page_candidates n ws)"
    by (cases "word_candidate n w") (simp_all add: page_candidates_def map_filter_simps)
  have names: "fst ` set ?one = fst ` set_option (word_candidate n w)"
    by (cases "word_candidate n w") simp_all
  have kf: "keep_first seen (page_candidates n (w # ws))
      = keep_first seen ?one
        @ keep_first (seen \<union> fst ` set_option (word_candidate n w)) (page_candidates n ws)"
    unfolding cands keep_first_append names ..
  from scan_word_step [of summarise n full_text words seen acc k w] obtain a1
    where a1: "scan_word summarise n full_text words (seen, acc) (k, w)
                 = (seen \<union> fst ` set_option (word_candidate n w), acc @ a1)"
      "map identity_of a1 = keep_first seen ?one"
    by blast
  from Cons.IH [of "seen \<union> fst ` set_option (word_candidate n w)" "acc @ a1" "Suc k"]
  obtain a2
    where a2: "foldl (scan_word summarise n full_text words)
                 (seen \<union> fst ` set_option (word_candidate n w), acc @ a1) (enumerate (Suc k) ws)
               = (seen \<union> fst ` set_option (word_candidate n w) \<union> fst ` set (page_candidates n ws),
                  (acc @ a1) @ a2)"
      "map identity_of a2
         = keep_first (seen \<union> fst ` set_option (word_candidate n w)) (page_candidates n ws)"
    by blast
  have "foldl (scan_word summarise n full_text words) (seen, acc) (enumerate k (w # ws))
        = (seen \<union> fst ` set (page_candidates n (w # ws)), acc @ (a1 @ a2))"
    using a1(1) a2(1) by (simp add: setc Un_assoc del: scan_word.simps)
  moreover have "map identity_of (a1 @ a2) = keep_first seen (page_candidates n (w # ws))"
    using a1(2) a2(2) kf by simp
  ultimately show ?case by blast
qed

lemma scan_words_result:
  "\<exists>eqs. scan_words summarise n full_text ws seen
           = (seen \<union> fst ` set (page_candidates n ws), eqs)
         \<and> map identity_of eqs = keep_first seen (page_candidates n ws)"
  using scan_fold [of summarise n full_text ws seen "[]" 0 ws]
  by (simp add: scan_words_def)

lemma process_page_result:
  assumes "process_page summarise n pg seen = Inr (seen', items)"
  shows "seen' = seen \<union> fst ` set (page_candidates n (words_of pg))
         \<and> mset (map identity_of items) = mset (keep_first seen (page_candidates n (words_of pg)))"
proof -
  from assms obtain full_text ws
    where pg: "extract_text pg = Inr full_text" "extract_words pg = Inr ws"
    by (auto simp add: process_page_def split: sum.splits)
  from scan_words_result [of summarise n full_text ws seen] obtain eqs
    where sc: "scan_words summarise n full_text ws seen
                 = (seen \<union> fst ` set (page_candidates n ws), eqs)"
      and ids: "map identity_of eqs = keep_first seen (page_candidates n ws)"
    by blast
  let ?sorted = "sort_key (\<lambda>x. (y_position x, x_position x)) eqs"
  from assms pg sc obtain stamped
    where st: "color_rows n (enumerate 0 (group_rows ?sorted)) = Inr stamped"
      and res: "seen' = seen \<union> fst ` set (page_candidates n ws)" "items = concat stamped"
    by (auto simp add: process_page_def Let_def split: sum.splits)
  from color_rows_Inr [OF group_rows_nonempty, of n 0 ?sorted] st
  have "map identity_of (concat stamped) = map identity_of (concat (group_rows ?sorted))"
    by auto
  then have "map identity_of items = map identity_of ?sorted"
    by (simp add: res concat_group_rows)
  then have "mset (map identity_of items) = mset (map identity_of eqs)"
    by simp
  with ids res pg show ?thesis
    by (simp add: words_of_def)
qed

lemma process_pages_result:
  "process_pages summarise (enumerate k pages) seen acc = Inr out
   \<Longrightarrow> mset (map identity_of out)
       = mset (map identity_of acc)
         + mset (keep_first seen
             (concat (map (\<lambda>(page_num, pg). page_candidates page_num (words_of pg))
                (enumerate k pages))))"
proof (induction pages arbitrary: k seen acc)
  case Nil
  then show ?case by simp
next
  case (Cons pg pages)
  from Cons.prems obtain seen' items
    where pp: "process_page summarise k pg seen = Inr (seen', items)"
      and rest: "process_pages summarise (enumerate (Suc k) pages) seen' (acc @ items) = Inr out"
    by (auto split: sum.splits)
  from process_page_result [OF pp] Cons.IH [OF rest] show ?case
    by (simp add: keep_first_append)
qed

lemma extracted_identities:
  assumes "extract_with_positions_pdfplumber summarise (Inr pages) = Some out"
  shows "mset (map identity_of out) = mset (first_occurrences (all_candidates pages))"
proof -
  from assms obtain equipment_data
    where pp: "process_pages summarise (enumerate 0 pages) {} [] = Inr equipment_data"
      and out: "out = map (\<lambda>eq. eq\<lparr>Alternate_From := [], Primary_From := []\<rparr>)
                 (sort_key (\<lambda>x. (page x, y_position x, x_position x)) equipment_data)"
    by (auto simp add: extract_with_positions_pdfplumber_def split: sum.splits)
  have "map identity_of out
        = map identity_of (sort_key (\<lambda>x. (page x, y_position x, x_position x)) equipment_data)"
    by (simp add: out identity_of_def)
  then have "mset (map identity_of out) = mset (map identity_of equipment_data)"
    by simp
  with process_pages_result [OF pp] show ?thesis
    by (simp add: all_candidates_def first_occurrences_keep_first)
qed

text \<open>
  C6. No two items of the extractor's output share a name. The items are, up to order,
  the first occurrences among the matching words taken page after page and, within a
  page, in scan order: a later word with a name already seen, on the same page or on
  another, gives no item.
\<close>

theorem unique_names_first_occurrence:
  assumes "extract_with_positions_pdfplumber summarise (Inr pages) = Some out"
  shows "distinct (map Equipment out)
         \<and> mset (map identity_of out) = mset (first_occurrences (all_candidates pages))"
proof -
  from extracted_identities [OF assms]
  have ids: "mset (map identity_of out) = mset (first_occurrences (all_candidates pages))" .
  have "map Equipment out = map fst (map identity_of out)"
    by (simp add: identity_of_def)
  moreover have "mset (map fst (map identity_of out))
      = mset (map fst (first_occurrences (all_candidates pages)))"
    using ids by (metis mset_map)
  moreover have "distinct (map fst (first_occurrences (all_candidates pages)))"
    by (simp add: first_occurrences_keep_first keep_first_distinct)
  ultimately have "distinct (map Equipment out)"
    by (metis mset_eq_imp_distinct_iff)
  with ids show ?thesis by simp
qed

text \<open>
  Two pages: \<open>DSGAA102\<close> twice on the first, \<open>MVSAA100\<close> on both. Three items come out,
  with the positions of the first occurrences.
\<close>

theorem unique_names_first_occurrence_witness:
  "\<exists>out. extract_with_positions_pdfplumber id (Inr duplicate_pages) = Some out
     \<and> distinct (map Equipment out)
     \<and> mset (map identity_of out)
       = mset [(''DSGAA102'', ''DSG'', 0, 10, 100), (''MVSAA100'', ''MVS'', 0, 10, 10),
               (''DSGBB200'', ''DSG'', 1, 10, 100)]"
proof -
  have "\<not> extractor_raises (Inr duplicate_pages)"
    by (simp add: extractor_raises_def page_raises_def duplicate_pages_def)
  then obtain out where out: "extract_with_positions_pdfplumber id (Inr duplicate_pages) = Some out"
    using extract_returns by blast
  have cands: "first_occurrences (all_candidates duplicate_pages)
      = [(''DSGAA102'', ''DSG'', 0, 10, 100), (''MVSAA100'', ''MVS'', 0, 10, 10),
         (''DSGBB200'', ''DSG'', 1, 10, 100)]"
    by code_simp
  from unique_names_first_occurrence [OF out] out show ?thesis
    by (simp only: cands) blast
qed

lemma keep_first_subset: "set (keep_first seen cs) \<subseteq> set cs"
  by (induction cs arbitrary: seen) auto

lemma word_candidate_Some:
  assumes "word_candidate n w = Some c"
  shows "equipment_search (word_text w) = Some (fst c)" and "fst (snd (snd c)) = n"
  using assms by (auto simp add: word_candidate_def split: option.splits if_splits)

lemma all_candidates_origin:
  assumes "c \<in> set (concat (map (\<lambda>(page_num, pg). page_candidates page_num (words_of pg))
      (enumerate k pages)))"
  shows "\<exists>j w. j < length pages \<and> w \<in> set (words_of (pages ! j))
           \<and> word_candidate (k + j) w = Some c"
  using assms
proof (induction pages arbitrary: k)
  case Nil
  then show ?case by simp
next
  case (Cons pg pages)
  from Cons.prems consider (here) "c \<in> set (page_candidates k (words_of pg))"
    | (later) "c \<in> set (concat (map (\<lambda>(page_num, pg). page_candidates page_num (words_of pg))
        (enumerate (Suc k) pages)))"
    by auto
  then show ?case
  proof cases
    case here
    then obtain w where "w \<in> set (words_of pg)" "word_candidate k w = Some c"
      by (auto simp add: page_candidates_def List.map_filter_def)
    then have "0 < length (pg # pages) \<and> w \<in> set (words_of ((pg # pages) ! 0))
        \<and> word_candidate (k + 0) w = Some c"
      by simp
    then show ?thesis by blast
  next
    case later
    from Cons.IH [OF this] obtain j w
      where "j < length pages" "w \<in> set (words_of (pages ! j))"
        "word_candidate (Suc k + j) w = Some c"
      by blast
    then have "Suc j < length (pg # pages) \<and> w \<in> set (words_of ((pg # pages) ! Suc j))
        \<and> word_candidate (k + Suc j) w = Some c"
      by simp
    then show ?thesis by blast
  qed
qed

lemma extracted_item_origin:
  assumes "extract_with_positions_pdfplumber summarise (Inr pages) = Some out"
    and "e \<in> set out"
  shows "\<exists>ws w pre post. page e < length pages \<and> extract_words (pages ! page e) = Inr ws
           \<and> w \<in> set ws \<and> word_text w = pre @ quote # Equipment e @ quote # post
           \<and> well_formed_name (Equipment e)"
proof -
  from assms(2) have "identity_of e \<in># mset (map identity_of out)"
    by simp
  also from extracted_identities [OF assms(1)]
  have "mset (map identity_of out) = mset (first_occurrences (all_candidates pages))" .
  finally have "identity_of e \<in> set (all_candidates pages)"
    using keep_first_subset [of "{}" "all_candidates pages"]
    by (auto simp add: first_occurrences_keep_first)
  from all_candidates_origin [OF this [unfolded all_candidates_def]] obtain j w
    where j: "j < length pages" and w: "w \<in> set (words_of (pages ! j))"
      and c: "word_candidate j w = Some (identity_of e)"
    by auto
  from word_candidate_Some [OF c] have name: "equipment_search (word_text w) = Some (Equipment e)"
    and pg: "page e = j"
    by (simp_all add: identity_of_def)
  from w obtain ws where ws: "extract_words (pages ! j) = Inr ws" "w \<in> set ws"
    by (cases "extract_words (pages ! j)") (auto simp add: words_of_def)
  from equipment_search_Some [OF name] j pg ws show ?thesis
    by blast
qed

lemma scan_word_no_quote:
  assumes "quote \<notin> set (word_text w)"
  shows "scan_word summarise n full_text words (seen, acc) (i, w) = (seen, acc)"
  using equipment_search_no_quote [OF assms] by simp

text \<open>
  C9. A name is extracted from a word only when the text of the word holds the name
  between single quotes: the pattern includes the quote characters. A word whose text has
  no single quote, such as a bare \<open>DSGAH110\<close>, matches nothing and leaves the scan state
  as it is; and every item of the output comes from a word of its page that holds the
  item's name between single quotes.
\<close>

theorem quoted_names_only:
  "(equipment_search (word_text w) = Some name
      \<longrightarrow> (\<exists>pre post. word_text w = pre @ quote # name @ quote # post) \<and> well_formed_name name)
   \<and> (quote \<notin> set (word_text w)
      \<longrightarrow> equipment_search (word_text w) = None
          \<and> scan_word summarise n full_text words (seen, acc) (i, w) = (seen, acc))
   \<and> (extract_with_positions_pdfplumber summarise (Inr pages) = Some out
      \<longrightarrow> (\<forall>e \<in> set out. \<exists>ws v pre post.
             page e < length pages \<and> extract_words (pages ! page e) = Inr ws \<and> v \<in> set ws
             \<and> word_text v = pre @ quote # Equipment e @ quote # post
             \<and> well_formed_name (Equipment e)))"
  using equipment_search_Some [of "word_text w" name] equipment_search_no_quote [of "word_text w"]
    scan_word_no_quote [of w summarise n full_text words seen acc i]
    extracted_item_origin [of summarise pages out]
  by blast

theorem quoted_names_only_witness:
  "equipment_search (word_text (word_at ''DSGAH110'' 10 100)) = None
   \<and> scan_word id 0 ''DSGAH110'' [word_at ''DSGAH110'' 10 100] ({}, [])
       (0, word_at ''DSGAH110'' 10 100) = ({}, [])
   \<and> (\<exists>pre post. word_text (word_at (quoted ''DSGAH110'') 10 100)
         = pre @ quote # ''DSGAH110'' @ quote # post)"
proof -
  have bare: "quote \<notin> set (word_text (word_at ''DSGAH110'' 10 100))"
    by (simp add: word_at_def quote_def)
  have found: "equipment_search (word_text (word_at (quoted ''DSGAH110'') 10 100))
      = Some ''DSGAH110''"
    by code_simp
  from quoted_names_only [of "word_at ''DSGAH110'' 10 100" "''DSGAH110''" id 0 "''DSGAH110''"
      "[word_at ''DSGAH110'' 10 100]" "{}" "[]" 0 "[]" "[]"]
    quoted_names_only [of "word_at (quoted ''DSGAH110'') 10 100" "''DSGAH110''" id 0 "[]"
      "[]" "{}" "[]" 0 "[]" "[]"] bare found
  show ?thesis by blast
qed

section \<open>Connection resolver\<close>

lemma assign_sources_idem:
  "assign_sources m (assign_sources m x) = assign_sources m x"
  by (simp add: assign_sources_def)

lemma assign_sources_page: "page (assign_sources m x) = page x"
  by (simp add: assign_sources_def)

lemma assign_on_page_length: "length (assign_on_page m idxs store) = length store"
  by (induction idxs arbitrary: store) simp_all

lemma assign_on_page_nth:
  "j < length store
   \<Longrightarrow> assign_on_page m idxs store ! j
       = (if j \<in> set idxs then assign_sources m (store ! j) else store ! j)"
proof (induction idxs arbitrary: store)
  case Nil
  then show ?case by simp
next
  case (Cons i idxs)
  let ?store = "store[i := assign_sources m (store ! i)]"
  from Cons.prems have "j < length ?store" by simp
  then have r: "assign_on_page m idxs ?store ! j
      = (if j \<in> set idxs then assign_sources m (?store ! j) else ?store ! j)"
    by (rule Cons.IH)
  from Cons.prems
  have st: "?store ! j = (if i = j then assign_sources m (store ! j) else store ! j)"
    by (cases "i = j") simp_all
  show ?case
    unfolding assign_on_page.simps r st by (auto simp add: assign_sources_idem)
qed

lemma assign_connections_length: "length (assign_connections m d store) = length store"
  by (induction d arbitrary: store) (auto simp add: assign_on_page_length)

lemma assign_connections_nth:
  "grouped_by_page store d \<Longrightarrow> j < length store
   \<Longrightarrow> assign_connections m d store ! j
       = (if j \<in> refs_of d then assign_sources (mvs_for_page m (page (store ! j))) (store ! j)
          else store ! j)"
proof (induction d arbitrary: store)
  case Nil
  then show ?case by (simp add: refs_of_def)
next
  case (Cons g d)
  obtain p idxs where g: "g = (p, idxs)" by (cases g)
  let ?store = "assign_on_page (mvs_for_page m p) idxs store"
  have nth: "?store ! k = (if k \<in> set idxs then assign_sources (mvs_for_page m p) (store ! k)
      else store ! k)" if "k < length store" for k
    using that by (rule assign_on_page_nth)
  have pages: "page (?store ! k) = page (store ! k)" if "k < length store" for k
    using that by (simp add: nth assign_sources_page)
  from Cons.prems(1) have here: "\<forall>i \<in> set idxs. page (store ! i) = p"
    and later: "grouped_by_page store d"
    by (auto simp add: grouped_by_page_def g)
  from later have "grouped_by_page ?store d"
    by (auto simp add: grouped_by_page_def pages assign_on_page_length)
  moreover from Cons.prems(2) have "j < length ?store"
    by (simp add: assign_on_page_length)
  ultimately have "assign_connections m d ?store ! j
      = (if j \<in> refs_of d then assign_sources (mvs_for_page m (page (?store ! j))) (?store ! j)
         else ?store ! j)"
    by (rule Cons.IH)
  moreover have "refs_of (g # d) = set idxs \<union> refs_of d"
    by (simp add: refs_of_def g)
  ultimately show ?case
    using here Cons.prems(2)
    by (auto simp add: g pages nth assign_sources_idem assign_sources_page)
qed

lemma refs_of_add_to_page: "refs_of (add_to_page d p i) = insert i (refs_of d)"
  by (induction d p i rule: add_to_page.induct) (auto simp add: refs_of_def)

lemma grouped_add_to_page:
  "grouped_by_page store d \<Longrightarrow> i < length store \<Longrightarrow> page (store ! i) = p
   \<Longrightarrow> grouped_by_page store (add_to_page d p i)"
  by (induction d p i rule: add_to_page.induct) (auto simp add: grouped_by_page_def)

lemma group_dsg_by_page_refs:
  "refs_of (group_dsg_by_page store idxs d) = set idxs \<union> refs_of d"
  by (induction idxs arbitrary: d) (auto simp add: refs_of_add_to_page)

lemma group_dsg_by_page_grouped:
  "grouped_by_page store d \<Longrightarrow> \<forall>i \<in> set idxs. i < length store
   \<Longrightarrow> grouped_by_page store (group_dsg_by_page store idxs d)"
  by (induction idxs arbitrary: d) (auto simp add: grouped_add_to_page)

lemma mvs_for_page_selected:
  "mvs_for_page (sort_key (\<lambda>x. (page x, y_position x, x_position x))
      (filter (\<lambda>x. Type x = ''MVS'') items)) p = selected_service items p"
  by (auto simp add: mvs_for_page_def selected_service_def Let_def)

lemma populate_connections_nth:
  assumes "j < length items"
  shows "populate_connections items ! j
         = (if Type (items ! j) = ''DSG''
            then assign_sources (selected_service items (page (items ! j))) (items ! j)
            else items ! j)"
proof (cases "filter (\<lambda>x. Type x = ''MVS'') items = []")
  case True
  then have "selected_service items p = []" for p
    by (simp add: selected_service_def)
  with True show ?thesis
    by (simp add: populate_connections_def assign_sources_def)
next
  case False
  let ?dsg = "filter (\<lambda>i. Type (items ! i) = ''DSG'') [0..<length items]"
  let ?d = "group_dsg_by_page items ?dsg []"
  have "grouped_by_page items []"
    by (simp add: grouped_by_page_def)
  then have "grouped_by_page items ?d"
    by (rule group_dsg_by_page_grouped) simp
  moreover have "refs_of [] = {}"
    by (simp add: refs_of_def)
  then have "refs_of ?d = set ?dsg"
    by (simp add: group_dsg_by_page_refs)
  ultimately show ?thesis
    using False assms
    by (simp add: populate_connections_def Let_def assign_connections_nth mvs_for_page_selected)
qed

lemma populate_connections_length: "length (populate_connections items) = length items"
  by (simp add: populate_connections_def Let_def assign_connections_length)

text \<open>
  C5. For a distribution item the resolver selects the service items of the item's page
  or, when the page has none, the first two service items in the order of
  (page, y, x). With two or more selected, the item gets the name of the first as
  primary source and the name of the second as alternate source; with exactly one, only
  the primary source is written; with none, the item is left as it is. Nothing else
  changes.
\<close>

theorem connections_from_selected_service:
  assumes "i < length items" and "Type (items ! i) = ''DSG''"
  shows "length (populate_connections items) = length items
         \<and> (2 \<le> length (selected_service items (page (items ! i)))
            \<longrightarrow> populate_connections items ! i
                = (items ! i)\<lparr>Primary_From :=
                                Equipment (selected_service items (page (items ! i)) ! 0),
                              Alternate_From :=
                                Equipment (selected_service items (page (items ! i)) ! 1)\<rparr>)
         \<and> (length (selected_service items (page (items ! i))) = 1
            \<longrightarrow> populate_connections items ! i
                = (items ! i)\<lparr>Primary_From :=
                                Equipment (selected_service items (page (items ! i)) ! 0)\<rparr>)
         \<and> (selected_service items (page (items ! i)) = []
            \<longrightarrow> populate_connections items ! i = items ! i)"
  using populate_connections_nth [OF assms(1)] assms(2)
  by (simp add: populate_connections_length assign_sources_def)


text \<open>
  Two service items on page 0, given out of order, one distribution item on page 0 and
  one on page 1, which has no service item of its own; and a list with one service item.
\<close>

theorem connections_from_selected_service_witness:
  "populate_connections fed_items ! 2
     = (fed_items ! 2)\<lparr>Primary_From := ''MVSAA100'', Alternate_From := ''MVSAA101''\<rparr>
   \<and> populate_connections fed_items ! 3
     = (fed_items ! 3)\<lparr>Primary_From := ''MVSAA100'', Alternate_From := ''MVSAA101''\<rparr>
   \<and> populate_connections single_feed_items ! 1
     = (single_feed_items ! 1)\<lparr>Primary_From := ''MVSAA100''\<rparr>"
proof -
  have sel2: "selected_service fed_items (page (fed_items ! 2))
      = [fresh_item ''MVSAA100'' 0 10 10, fresh_item ''MVSAA101'' 0 200 10]"
    by (simp add: selected_service_def fed_items_def fresh_item_def)
  have sel3: "selected_service fed_items (page (fed_items ! 3))
      = [fresh_item ''MVSAA100'' 0 10 10, fresh_item ''MVSAA101'' 0 200 10]"
    by (simp add: selected_service_def fed_items_def fresh_item_def)
  have sel1: "selected_service single_feed_items (page (single_feed_items ! 1))
      = [fresh_item ''MVSAA100'' 0 10 10]"
    by (simp add: selected_service_def single_feed_items_def fresh_item_def)
  have dsg: "Type (fed_items ! 2) = ''DSG''" "Type (fed_items ! 3) = ''DSG''"
      "Type (single_feed_items ! 1) = ''DSG''"
    by (simp_all add: fed_items_def single_feed_items_def fresh_item_def)
  have len: "2 < length fed_items" "3 < length fed_items" "1 < length single_feed_items"
    by (simp_all add: fed_items_def single_feed_items_def)
  have names: "Equipment (fresh_item ''MVSAA100'' 0 10 10) = ''MVSAA100''"
      "Equipment (fresh_item ''MVSAA101'' 0 200 10) = ''MVSAA101''"
    by (simp_all add: fresh_item_def)
  from connections_from_selected_service [OF len(1) dsg(1)]
    connections_from_selected_service [OF len(2) dsg(2)]
    connections_from_selected_service [OF len(3) dsg(3)]
  show ?thesis
    unfolding sel2 sel3 sel1 by (simp add: names)
qed


end
